theory Spec2Isabelle
  imports Main "HOL-Library.Word"
begin

section \<open>Serial monitor (scripts/monitor.py): data\<close>

text \<open>
  Bytes read from the serial port are 8-bit words. A Python \<open>str\<close> is a sequence of
  Unicode code points, which do not fit into HOL's 8-bit \<open>char\<close>; a decoded text is
  therefore a list of code points (natural numbers).
\<close>

type_synonym byte = "8 word"
type_synonym codepoint = nat
type_synonym pystr = "codepoint list"

definition ascii :: "string \<Rightarrow> pystr" where
  "ascii s = map of_char s"

definition NL :: codepoint where
  "NL = 10"

definition CR :: codepoint where
  "CR = 13"

definition REPLACEMENT :: codepoint where
  "REPLACEMENT = 0xFFFD"

subsection \<open>bytes.decode('utf-8', errors=...)\<close>

text \<open>
  The read loop calls \<open>data.decode('utf-8', errors='replace')\<close>. The decoder belongs to
  the Python runtime; it is modelled here after CPython's decoder: a lead byte fixes the
  length of the sequence and the admissible range of the second byte (which excludes
  overlong forms, surrogates and code points above U+10FFFF); an ill-formed sequence is
  an error. With \<open>errors='strict'\<close> the error is raised as UnicodeDecodeError, with
  \<open>errors='replace'\<close> the maximal ill-formed prefix (the bytes accepted so far, at least
  one) is replaced by U+FFFD and decoding goes on behind it.
\<close>

datatype errors_mode = Strict | Replace

datatype error = UnicodeDecodeError

definition is_cont :: "byte \<Rightarrow> bool" where
  "is_cont b = (0x80 \<le> b \<and> b \<le> 0xBF)"

text \<open>The range of the second byte after lead byte \<open>b\<close> of a 3- or 4-byte sequence.\<close>

definition second_ok :: "byte \<Rightarrow> byte \<Rightarrow> bool" where
  "second_ok b c =
     (if b = 0xE0 then 0xA0 \<le> c \<and> c \<le> 0xBF
      else if b = 0xED then 0x80 \<le> c \<and> c \<le> 0x9F
      else if b = 0xF0 then 0x90 \<le> c \<and> c \<le> 0xBF
      else if b = 0xF4 then 0x80 \<le> c \<and> c \<le> 0x8F
      else is_cont c)"

definition cp2 :: "byte \<Rightarrow> byte \<Rightarrow> codepoint" where
  "cp2 b c = (unat b - 0xC0) * 64 + (unat c - 0x80)"

definition cp3 :: "byte \<Rightarrow> byte \<Rightarrow> byte \<Rightarrow> codepoint" where
  "cp3 b c d = (unat b - 0xE0) * 4096 + (unat c - 0x80) * 64 + (unat d - 0x80)"

definition cp4 :: "byte \<Rightarrow> byte \<Rightarrow> byte \<Rightarrow> byte \<Rightarrow> codepoint" where
  "cp4 b c d e =
     (unat b - 0xF0) * 262144 + (unat c - 0x80) * 4096 + (unat d - 0x80) * 64 + (unat e - 0x80)"

definition emit :: "codepoint \<Rightarrow> error + pystr \<Rightarrow> error + pystr" where
  "emit cp r = (case r of Inl e \<Rightarrow> Inl e | Inr s \<Rightarrow> Inr (cp # s))"

text \<open>An ill-formed sequence: raise, or put the placeholder and decode the rest.\<close>

definition bad :: "errors_mode \<Rightarrow> error + pystr \<Rightarrow> error + pystr" where
  "bad m r = (case m of Strict \<Rightarrow> Inl UnicodeDecodeError | Replace \<Rightarrow> emit REPLACEMENT r)"

text \<open>
  One round of the decoder's loop on a non-empty input: the next code point, or None for
  an ill-formed sequence, and the input behind the bytes consumed.
\<close>

fun utf8_next :: "byte list \<Rightarrow> codepoint option \<times> byte list" where
  "utf8_next [] = (None, [])"
| "utf8_next (b # bs) =
     (if b < 0x80 then (Some (unat b), bs)
      else if b < 0xC2 then (None, bs)
      else if b < 0xE0 then
        (case bs of
           [] \<Rightarrow> (None, [])
         | c # cs \<Rightarrow> if is_cont c then (Some (cp2 b c), cs) else (None, bs))
      else if b < 0xF0 then
        (case bs of
           [] \<Rightarrow> (None, [])
         | c # cs \<Rightarrow>
             if \<not> second_ok b c then (None, bs)
             else (case cs of
                     [] \<Rightarrow> (None, [])
                   | d # ds \<Rightarrow> if is_cont d then (Some (cp3 b c d), ds) else (None, cs)))
      else if b < 0xF5 then
        (case bs of
           [] \<Rightarrow> (None, [])
         | c # cs \<Rightarrow>
             if \<not> second_ok b c then (None, bs)
             else (case cs of
                     [] \<Rightarrow> (None, [])
                   | d # ds \<Rightarrow>
                       if \<not> is_cont d then (None, cs)
                       else (case ds of
                               [] \<Rightarrow> (None, [])
                             | e # es \<Rightarrow>
                                 if is_cont e then (Some (cp4 b c d e), es) else (None, ds))))
      else (None, bs))"

function utf8_decode :: "errors_mode \<Rightarrow> byte list \<Rightarrow> error + pystr" where
  "utf8_decode m [] = Inr []"
| "utf8_decode m (b # bs) =
     (case utf8_next (b # bs) of
        (Some cp, rest) \<Rightarrow> emit cp (utf8_decode m rest)
      | (None, rest) \<Rightarrow> bad m (utf8_decode m rest))"
  by pat_completeness auto
termination
proof (relation "measure (\<lambda>(m, bs). length bs)")
  show "wf (measure (\<lambda>(m :: errors_mode, bs :: byte list). length bs))"
    by simp
next
  fix m :: errors_mode and b :: byte and bs rest :: "byte list" and x cp
  assume "(x, rest) = utf8_next (b # bs)"
  then have "length rest \<le> length bs"
    by (simp split: if_splits list.splits)
  then show "((m, rest), m, b # bs) \<in> measure (\<lambda>(m, bs). length bs)"
    by simp
next
  fix m :: errors_mode and b :: byte and bs rest :: "byte list" and x
  assume "(x, rest) = utf8_next (b # bs)"
  then have "length rest \<le> length bs"
    by (simp split: if_splits list.splits)
  then show "((m, rest), m, b # bs) \<in> measure (\<lambda>(m, bs). length bs)"
    by simp
qed

text \<open>The call of the read loop: \<open>errors='replace'\<close>.\<close>

definition decode_chunk :: "byte list \<Rightarrow> error + pystr" where
  "decode_chunk data = utf8_decode Replace data"

subsection \<open>The compiled filter pattern and Pattern.search\<close>

text \<open>
  \<open>self.filter_pattern\<close> is the object returned by \<open>re.compile\<close>, or None. The compiled
  pattern is represented by its syntax tree, for the regular fragment of Python's
  patterns: literals, \<open>.\<close>, concatenation, \<open>|\<close> and \<open>*\<close> (anchors, look-around and
  back-references are outside the model). \<open>literal\<close> is what \<open>re.compile\<close> yields for a
  pattern without metacharacters, such as \<open>ERR\<close>.
\<close>

datatype regex =
    Zero
  | Eps
  | Chr codepoint
  | AnyChr
  | Seq regex regex
  | Alt regex regex
  | Star regex

fun literal :: "pystr \<Rightarrow> regex" where
  "literal [] = Eps"
| "literal (c # cs) = Seq (Chr c) (literal cs)"

text \<open>The strings a pattern matches as a whole (what \<open>fullmatch\<close> accepts).\<close>

inductive_set star_lang :: "pystr set \<Rightarrow> pystr set" for L :: "pystr set" where
  star_empty: "[] \<in> star_lang L"
| star_more: "u \<in> L \<Longrightarrow> v \<in> star_lang L \<Longrightarrow> u @ v \<in> star_lang L"

fun lang :: "regex \<Rightarrow> pystr set" where
  "lang Zero = {}"
| "lang Eps = {[]}"
| "lang (Chr c) = {[c]}"
| "lang AnyChr = {[c] | c. c \<noteq> NL}"
| "lang (Seq r s) = {u @ v | u v. u \<in> lang r \<and> v \<in> lang s}"
| "lang (Alt r s) = lang r \<union> lang s"
| "lang (Star r) = star_lang (lang r)"

text \<open>
  The matcher: \<open>search\<close> scans the start positions from left to right and, at each,
  looks for a match beginning there (\<open>match_here\<close>), by derivatives of the pattern.
\<close>

fun nullable :: "regex \<Rightarrow> bool" where
  "nullable Zero = False"
| "nullable Eps = True"
| "nullable (Chr c) = False"
| "nullable AnyChr = False"
| "nullable (Seq r s) = (nullable r \<and> nullable s)"
| "nullable (Alt r s) = (nullable r \<or> nullable s)"
| "nullable (Star r) = True"

fun deriv :: "codepoint \<Rightarrow> regex \<Rightarrow> regex" where
  "deriv a Zero = Zero"
| "deriv a Eps = Zero"
| "deriv a (Chr c) = (if a = c then Eps else Zero)"
| "deriv a AnyChr = (if a = NL then Zero else Eps)"
| "deriv a (Seq r s) =
     (if nullable r then Alt (Seq (deriv a r) s) (deriv a s) else Seq (deriv a r) s)"
| "deriv a (Alt r s) = Alt (deriv a r) (deriv a s)"
| "deriv a (Star r) = Seq (deriv a r) (Star r)"

fun match_here :: "regex \<Rightarrow> pystr \<Rightarrow> bool" where
  "match_here r [] = nullable r"
| "match_here r (c # cs) = (nullable r \<or> match_here (deriv c r) cs)"

fun search :: "regex \<Rightarrow> pystr \<Rightarrow> bool" where
  "search r [] = nullable r"
| "search r (c # cs) = (match_here r (c # cs) \<or> search r cs)"

section \<open>class ESPMonitor\<close>

text \<open>
  The attributes set by \<open>__init__\<close> that the monitoring loop reads, and the
  \<open>show_timestamps\<close> argument of \<open>monitor\<close>.
\<close>

record config =
  log_file :: "string option"
  filter_pattern :: "regex option"
  show_timestamps :: bool

text \<open>\<open>if self.log_file:\<close> holds for a path that is neither None nor the empty string.\<close>

definition log_enabled :: "config \<Rightarrow> bool" where
  "log_enabled cfg = (case log_file cfg of None \<Rightarrow> False | Some p \<Rightarrow> p \<noteq> [])"

text \<open>
  \<open>format_line\<close>; \<open>ts\<close> is \<open>datetime.now().strftime("%H:%M:%S.%f")[:-3]\<close>, read from
  the clock by the caller.
\<close>

definition format_line :: "pystr \<Rightarrow> pystr \<Rightarrow> bool \<Rightarrow> pystr" where
  "format_line ts line timestamp =
     (if timestamp then ascii ''['' @ ts @ ascii ''] '' @ line else line)"

text \<open>\<open>should_display\<close>: a compiled pattern object is always true, so the test is for None.\<close>

definition should_display :: "config \<Rightarrow> pystr \<Rightarrow> bool" where
  "should_display cfg line =
     (case filter_pattern cfg of None \<Rightarrow> True | Some p \<Rightarrow> search p line)"

subsection \<open>queue.Queue\<close>

text \<open>
  \<open>self.log_queue = queue.Queue()\<close>: the constructor's \<open>maxsize\<close> defaults to 0. In
  Python's Queue a \<open>maxsize\<close> of 0 or less means that the queue is never full; otherwise
  \<open>put\<close> blocks while \<open>qsize() >= maxsize\<close>. \<open>queue_put\<close> returns None where the
  caller would block.
\<close>

definition log_queue_maxsize :: nat where
  "log_queue_maxsize = 0"

definition queue_full :: "nat \<Rightarrow> 'a list \<Rightarrow> bool" where
  "queue_full maxsize q = (0 < maxsize \<and> maxsize \<le> length q)"

definition queue_put :: "nat \<Rightarrow> 'a list \<Rightarrow> 'a \<Rightarrow> 'a list option" where
  "queue_put maxsize q x = (if queue_full maxsize q then None else Some (q @ [x]))"

subsection \<open>The state of a monitoring session\<close>

text \<open>
  Two threads run: the main thread in the read loop of \<open>monitor\<close>, and the daemon thread
  running \<open>log_writer\<close> (started only when a log file is configured). The state holds
  the attributes and locals they share or own, and a program point for each thread.
  \<open>console\<close> lists what the read loop and its handlers print, one entry per \<open>print\<close>;
  \<open>log_written\<close> lists what \<open>log_writer\<close> has written (and flushed) to the log file;
  \<open>ticks\<close> counts the readings of the clock made by \<open>format_line\<close>.
\<close>

datatype main_pc = InLoop | BlockedOnPut | Finished

datatype writer_pc = NoWriter | AtLoopHead | InGet | WriterExited

record monitor_state =
  running :: bool
  mainpc :: main_pc
  serial_open :: bool
  buffer :: pystr
  console :: "pystr list"
  ticks :: nat
  log_queue :: "pystr list"
  log_written :: "pystr list"
  writer :: writer_pc

type_synonym clock = "nat \<Rightarrow> pystr"

text \<open>
  Lines 105 to 110 of monitor.py: format, print, and queue for logging. The \<open>k\<close>-th
  reading of the clock is \<open>now k\<close>.
\<close>

definition forward :: "config \<Rightarrow> clock \<Rightarrow> pystr \<Rightarrow> monitor_state \<Rightarrow> monitor_state" where
  "forward cfg now line st =
     (let formatted_line = format_line (now (ticks st)) line (show_timestamps cfg);
          st1 = st\<lparr>console := console st @ [formatted_line],
                   ticks := (if show_timestamps cfg then Suc (ticks st) else ticks st)\<rparr>
      in if log_enabled cfg then
           (case queue_put log_queue_maxsize (log_queue st1) (formatted_line @ [NL]) of
              None \<Rightarrow> st1\<lparr>mainpc := BlockedOnPut\<rparr>
            | Some q \<Rightarrow> st1\<lparr>log_queue := q\<rparr>)
         else st1)"

text \<open>\<open>line.rstrip('\r')\<close> removes every trailing occurrence of the character.\<close>

definition rstrip :: "codepoint \<Rightarrow> pystr \<Rightarrow> pystr" where
  "rstrip c s = rev (dropWhile (\<lambda>x. x = c) (rev s))"

text \<open>
  The inner loop \<open>while '\n' in buffer\<close>. \<open>buffer.split('\n', 1)\<close> yields the text before
  the first line feed and the text behind it. The loop goes on only while the main thread
  is not held in \<open>put\<close> (\<open>mainpc st = InLoop\<close>).
\<close>

function process_lines :: "config \<Rightarrow> clock \<Rightarrow> monitor_state \<Rightarrow> monitor_state" where
  "process_lines cfg now st =
     (if mainpc st = InLoop \<and> NL \<in> set (buffer st) then
        (let line = takeWhile (\<lambda>c. c \<noteq> NL) (buffer st);
             rest = tl (dropWhile (\<lambda>c. c \<noteq> NL) (buffer st));
             line = rstrip CR line;
             st1 = st\<lparr>buffer := rest\<rparr>
         in process_lines cfg now
              (if line \<noteq> [] \<and> should_display cfg line then forward cfg now line st1 else st1))
      else st)"
  by pat_completeness auto
termination
proof (relation "measure (\<lambda>(cfg, now, st). length (buffer st))")
  show "wf (measure (\<lambda>(cfg, now, st). length (buffer st)))"
    by simp
next
  fix cfg :: config and now :: clock and st :: monitor_state
  fix x xa xb xc
  assume a: "mainpc st = InLoop \<and> NL \<in> set (buffer st)"
    and xa: "xa = tl (dropWhile (\<lambda>c. c \<noteq> NL) (buffer st))"
    and xc: "xc = st\<lparr>buffer := xa\<rparr>"
  have ne: "dropWhile (\<lambda>c. c \<noteq> NL) (buffer st) \<noteq> []"
    using a by simp
  have "length (tl (dropWhile (\<lambda>c. c \<noteq> NL) (buffer st)))
          < length (dropWhile (\<lambda>c. c \<noteq> NL) (buffer st))"
    using ne by (cases "dropWhile (\<lambda>c. c \<noteq> NL) (buffer st)") simp_all
  also have "\<dots> \<le> length (buffer st)"
    by (rule length_dropWhile_le)
  finally have lt: "length xa < length (buffer st)"
    by (simp add: xa)
  have "buffer (forward cfg now xb xc) = xa"
    by (simp add: forward_def Let_def xc split: option.splits)
  with lt xc
  show "((cfg, now, if xb \<noteq> [] \<and> should_display cfg xb then forward cfg now xb xc else xc),
          cfg, now, st) \<in> measure (\<lambda>(cfg, now, st). length (buffer st))"
    by simp
qed

declare process_lines.simps [simp del]

subsection \<open>The read loop of monitor\<close>

text \<open>
  One pass through the body of \<open>if self.serial_conn.in_waiting > 0\<close> with \<open>data\<close> the
  bytes that \<open>read\<close> returns: decode, append to the buffer, process the complete lines;
  the handler of UnicodeDecodeError prints a marker.
\<close>

definition read_chunk :: "config \<Rightarrow> clock \<Rightarrow> byte list \<Rightarrow> monitor_state \<Rightarrow> monitor_state" where
  "read_chunk cfg now data st =
     (case decode_chunk data of
        Inl UnicodeDecodeError \<Rightarrow> st\<lparr>console := console st @ [ascii ''[BINARY DATA]'']\<rparr>
      | Inr s \<Rightarrow> process_lines cfg now (st\<lparr>buffer := buffer st @ s\<rparr>))"

definition print :: "pystr \<Rightarrow> monitor_state \<Rightarrow> monitor_state" where
  "print s st = st\<lparr>console := console st @ [s]\<rparr>"

definition disconnect :: "monitor_state \<Rightarrow> monitor_state" where
  "disconnect st =
     (if serial_open st
      then print (0x1F50C # ascii '' Disconnected from serial port'') (st\<lparr>serial_open := False\<rparr>)
      else st)"

text \<open>
  The \<open>finally\<close> block: clear the flag, disconnect, and wait for the writer thread for
  at most two seconds (the wait changes no state; the writer's steps are scheduled by
  the trace). After it \<open>monitor\<close> returns True.
\<close>

definition finally_block :: "monitor_state \<Rightarrow> monitor_state" where
  "finally_block st = (disconnect (st\<lparr>running := False\<rparr>))\<lparr>mainpc := Finished\<rparr>"

text \<open>
  What can happen to the main thread in one pass through \<open>while self.running\<close>: bytes
  are waiting, none are, the operator presses Ctrl+C, or the port raises an exception
  with message \<open>e\<close>. \<open>WriterStep\<close> is a step of the other thread.
\<close>

datatype event =
    Chunk "byte list"
  | NoData
  | KeyboardInterrupt
  | IOFailure pystr
  | WriterStep

definition main_step :: "config \<Rightarrow> clock \<Rightarrow> event \<Rightarrow> monitor_state \<Rightarrow> monitor_state" where
  "main_step cfg now ev st =
     (case ev of
        Chunk data \<Rightarrow> if 0 < length data then read_chunk cfg now data st else st
      | NoData \<Rightarrow> st
      | KeyboardInterrupt \<Rightarrow>
          finally_block (print (NL # 0x1F6D1 # ascii '' Monitoring stopped by user'') st)
      | IOFailure e \<Rightarrow>
          finally_block (print (NL # 0x274C # ascii '' Monitoring error: '' @ e) st)
      | WriterStep \<Rightarrow> st)"

subsection \<open>log_writer\<close>

text \<open>
  The loop of the writer thread, in two steps: the test of \<open>while self.running\<close>, and
  \<open>self.log_queue.get(timeout=1)\<close> followed by write and flush. A step at \<open>InGet\<close> on
  an empty queue is the timeout (\<open>queue.Empty\<close>, \<open>continue\<close>). Leaving the loop leaves
  the \<open>with\<close> block, which closes the file.
\<close>

definition writer_step :: "monitor_state \<Rightarrow> monitor_state" where
  "writer_step st =
     (case writer st of
        NoWriter \<Rightarrow> st
      | AtLoopHead \<Rightarrow> if running st then st\<lparr>writer := InGet\<rparr> else st\<lparr>writer := WriterExited\<rparr>
      | InGet \<Rightarrow>
          (case log_queue st of
             [] \<Rightarrow> st\<lparr>writer := AtLoopHead\<rparr>
           | log_entry # q \<Rightarrow>
               st\<lparr>log_queue := q, log_written := log_written st @ [log_entry],
                  writer := AtLoopHead\<rparr>)
      | WriterExited \<Rightarrow> st)"

subsection \<open>Interleaved runs\<close>

text \<open>
  A trace schedules the two threads. An event of the main thread is taken only while
  the main thread is in its loop.
\<close>

definition step :: "config \<Rightarrow> clock \<Rightarrow> monitor_state \<Rightarrow> event \<Rightarrow> monitor_state" where
  "step cfg now st ev =
     (if ev = WriterStep then writer_step st
      else if mainpc st = InLoop then main_step cfg now ev st
      else st)"

definition run :: "config \<Rightarrow> clock \<Rightarrow> event list \<Rightarrow> monitor_state \<Rightarrow> monitor_state" where
  "run cfg now evs st = foldl (step cfg now) st evs"

text \<open>
  The state when the read loop is entered: connected, \<open>self.running = True\<close>, the
  writer thread started if a log file is configured, \<open>buffer = ""\<close>.
\<close>

definition start :: "config \<Rightarrow> monitor_state" where
  "start cfg =
     \<lparr>running = True, mainpc = InLoop, serial_open = True, buffer = [], console = [],
      ticks = 0, log_queue = [], log_written = [],
      writer = (if log_enabled cfg then AtLoopHead else NoWriter)\<rparr>"

text \<open>
  \<open>monitor\<close>: \<open>connected\<close> is the result of \<open>self.connect()\<close> (False when
  \<open>serial.Serial\<close> raises SerialException). The result is the returned value, or None
  while the read loop is still running at the end of the trace.
\<close>

definition monitor :: "config \<Rightarrow> clock \<Rightarrow> bool \<Rightarrow> event list \<Rightarrow> bool option" where
  "monitor cfg now connected evs =
     (if \<not> connected then Some False
      else if mainpc (run cfg now evs (start cfg)) = Finished then Some True
      else None)"

subsection \<open>main and the exit status\<close>

text \<open>
  The parsed arguments that \<open>main\<close> uses beyond the configuration. With \<open>--command\<close>
  (a non-empty text) the script connects, sends the command, sleeps and disconnects;
  otherwise it calls \<open>monitor\<close> and discards the result. \<open>main\<close> ends by falling off its
  end. The interpreter exits with status 0 when the script runs to its end and with
  status 1 when an exception is not caught.
\<close>

datatype completion = Returned | Raised

definition exit_status :: "completion \<Rightarrow> nat" where
  "exit_status c = (case c of Returned \<Rightarrow> 0 | Raised \<Rightarrow> 1)"

definition main :: "pystr option \<Rightarrow> config \<Rightarrow> clock \<Rightarrow> bool \<Rightarrow> event list \<Rightarrow> completion option" where
  "main command cfg now connected evs =
     (if command \<noteq> None \<and> command \<noteq> Some [] then Some Returned
      else (case monitor cfg now connected evs of
              None \<Rightarrow> None
            | Some result \<Rightarrow> Some Returned))"

definition process_exit :: "pystr option \<Rightarrow> config \<Rightarrow> clock \<Rightarrow> bool \<Rightarrow> event list \<Rightarrow> nat option" where
  "process_exit command cfg now connected evs =
     map_option exit_status (main command cfg now connected evs)"

section \<open>Notions used in the statements\<close>

text \<open>The text that \<open>decode('utf-8', errors='replace')\<close> returns for a chunk.\<close>

definition decoded :: "byte list \<Rightarrow> pystr" where
  "decoded bs = (case utf8_decode Replace bs of Inr s \<Rightarrow> s | Inl e \<Rightarrow> [])"

text \<open>
  What the body of the inner loop does with the text \<open>raw\<close> found before a line feed.
\<close>

definition handle_line :: "config \<Rightarrow> clock \<Rightarrow> pystr \<Rightarrow> monitor_state \<Rightarrow> monitor_state" where
  "handle_line cfg now raw st =
     (if rstrip CR raw \<noteq> [] \<and> should_display cfg (rstrip CR raw)
      then forward cfg now (rstrip CR raw) st else st)"

text \<open>Bytes of an ASCII text, as the device sends them.\<close>

definition bytes_of :: "string \<Rightarrow> byte list" where
  "bytes_of s = map of_char s"

text \<open>
  Configurations and a clock for the scenarios: no log and no filter; a log file; a log
  file and the filter pattern \<open>ERR\<close>. Timestamps are off in all of them.
\<close>

definition cfg_plain :: config where
  "cfg_plain = \<lparr>log_file = None, filter_pattern = None, show_timestamps = False\<rparr>"

definition cfg_logging :: config where
  "cfg_logging =
     \<lparr>log_file = Some ''logs/monitor.log'', filter_pattern = None, show_timestamps = False\<rparr>"

definition cfg_ERR :: config where
  "cfg_ERR =
     \<lparr>log_file = Some ''logs/monitor.log'', filter_pattern = Some (literal (ascii ''ERR'')),
      show_timestamps = False\<rparr>"

definition clock0 :: clock where
  "clock0 k = ascii ''12:00:00.000''"

section \<open>The decoder\<close>

lemma emit_Inr: "emit cp (Inr s) = Inr (cp # s)"
  by (simp add: emit_def)

lemma bad_Replace: "bad Replace (Inr s) = Inr (REPLACEMENT # s)"
  by (simp add: bad_def emit_def)

lemma bad_Strict: "bad Strict r = Inl UnicodeDecodeError"
  by (simp add: bad_def)

lemma utf8_replace_total: "\<exists>s. utf8_decode Replace bs = Inr s"
proof (induction "Replace" bs rule: utf8_decode.induct)
  case 1
  show ?case by simp
next
  case (2 b bs)
  obtain x rest where n: "utf8_next (b # bs) = (x, rest)"
    by (cases "utf8_next (b # bs)")
  show ?case
  proof (cases x)
    case None
    from 2(1) [OF n [symmetric] None] obtain s where "utf8_decode Replace rest = Inr s"
      by auto
    with n None show ?thesis
      by (simp add: bad_Replace del: utf8_next.simps)
  next
    case (Some cp)
    from 2(2) [OF n [symmetric] Some] obtain s where "utf8_decode Replace rest = Inr s"
      by auto
    with n Some show ?thesis
      by (simp add: emit_Inr del: utf8_next.simps)
  qed
qed

lemma utf8_replace_decoded: "utf8_decode Replace bs = Inr (decoded bs)"
  using utf8_replace_total [of bs] by (auto simp: decoded_def)

lemma decoded_Nil: "decoded [] = []"
  by (simp add: decoded_def)

lemma decoded_Cons:
  "decoded (b # bs) =
     (case utf8_next (b # bs) of (Some cp, rest) \<Rightarrow> cp # decoded rest
                               | (None, rest) \<Rightarrow> REPLACEMENT # decoded rest)"
  using utf8_replace_decoded [of "b # bs"]
  by (simp add: utf8_replace_decoded emit_Inr bad_Replace del: utf8_next.simps split: prod.splits option.splits)

lemma strict_replace: "utf8_decode Strict bs = Inr s \<Longrightarrow> utf8_decode Replace bs = Inr s"
proof (induction "Strict" bs arbitrary: s rule: utf8_decode.induct)
  case 1
  then show ?case by simp
next
  case (2 b bs)
  obtain x rest where n: "utf8_next (b # bs) = (x, rest)"
    by (cases "utf8_next (b # bs)")
  show ?case
  proof (cases x)
    case None
    with n 2(3) show ?thesis
      by (simp add: bad_Strict del: utf8_next.simps)
  next
    case (Some cp)
    with n 2(3) obtain t where t: "utf8_decode Strict rest = Inr t" and s: "s = cp # t"
      by (auto simp: emit_def simp del: utf8_next.simps split: sum.splits)
    from 2(2) [OF n [symmetric] Some t] have "utf8_decode Replace rest = Inr t" .
    with n Some s show ?thesis
      by (simp add: emit_Inr del: utf8_next.simps)
  qed
qed


text \<open>A well-formed chunk decodes independently of what follows it.\<close>

lemma utf8_next_append:
  "utf8_next (b # bs) = (Some cp, rest) \<Longrightarrow> utf8_next (b # bs @ ys) = (Some cp, rest @ ys)"
  by (auto split: if_splits list.splits)

lemma strict_append:
  "utf8_decode Strict bs = Inr s \<Longrightarrow> decoded (bs @ ys) = s @ decoded ys"
proof (induction "Strict" bs arbitrary: s rule: utf8_decode.induct)
  case 1
  then show ?case by simp
next
  case (2 b bs)
  obtain x rest where n: "utf8_next (b # bs) = (x, rest)"
    by (cases "utf8_next (b # bs)")
  show ?case
  proof (cases x)
    case None
    with n 2(3) show ?thesis
      by (simp add: bad_Strict del: utf8_next.simps)
  next
    case (Some cp)
    with n 2(3) obtain t where t: "utf8_decode Strict rest = Inr t" and s: "s = cp # t"
      by (auto simp: emit_def simp del: utf8_next.simps split: sum.splits)
    from 2(2) [OF n [symmetric] Some t] have ih: "decoded (rest @ ys) = t @ decoded ys" .
    from n Some have "utf8_next (b # bs @ ys) = (Some cp, rest @ ys)"
      by (simp add: utf8_next_append del: utf8_next.simps)
    then have "decoded ((b # bs) @ ys) = cp # decoded (rest @ ys)"
      by (simp add: decoded_Cons del: utf8_next.simps)
    with ih s show ?thesis
      by simp
  qed
qed

section \<open>The inner loop\<close>

lemma forward_eq:
  "forward cfg now line st =
     st\<lparr>console := console st @ [format_line (now (ticks st)) line (show_timestamps cfg)],
        ticks := (if show_timestamps cfg then Suc (ticks st) else ticks st),
        log_queue :=
          (if log_enabled cfg
           then log_queue st @ [format_line (now (ticks st)) line (show_timestamps cfg) @ [NL]]
           else log_queue st)\<rparr>"
  by (simp add: forward_def Let_def queue_put_def queue_full_def log_queue_maxsize_def)

lemma handle_line_buffer [simp]: "buffer (handle_line cfg now raw st) = buffer st"
  by (simp add: handle_line_def forward_eq)

lemma handle_line_mainpc [simp]: "mainpc (handle_line cfg now raw st) = mainpc st"
  by (simp add: handle_line_def forward_eq)

lemma handle_line_buffer_update:
  "handle_line cfg now raw (st\<lparr>buffer := b\<rparr>) = (handle_line cfg now raw st)\<lparr>buffer := b\<rparr>"
  by (simp add: handle_line_def forward_eq)

lemma process_lines_stop: "NL \<notin> set (buffer st) \<Longrightarrow> process_lines cfg now st = st"
  by (subst process_lines.simps) simp

lemma process_lines_unfold:
  assumes "mainpc st = InLoop" and "NL \<in> set (buffer st)"
  shows "process_lines cfg now st =
           process_lines cfg now
             (handle_line cfg now (takeWhile (\<lambda>c. c \<noteq> NL) (buffer st))
                (st\<lparr>buffer := tl (dropWhile (\<lambda>c. c \<noteq> NL) (buffer st))\<rparr>))"
  using assms by (subst process_lines.simps) (simp add: handle_line_def Let_def)

lemma takeWhile_line: "NL \<notin> set l \<Longrightarrow> takeWhile (\<lambda>c. c \<noteq> NL) (l @ NL # rest) = l"
  by (induction l) auto

lemma dropWhile_line: "NL \<notin> set l \<Longrightarrow> dropWhile (\<lambda>c. c \<noteq> NL) (l @ NL # rest) = NL # rest"
  by (induction l) auto

lemma process_lines_line:
  assumes "mainpc st = InLoop" and "NL \<notin> set l"
  shows "process_lines cfg now (st\<lparr>buffer := l @ NL # rest\<rparr>) =
           process_lines cfg now (handle_line cfg now l (st\<lparr>buffer := rest\<rparr>))"
  using assms
  by (subst process_lines_unfold) (simp_all add: takeWhile_line dropWhile_line)

lemma split_at_NL:
  assumes "NL \<in> set s"
  shows "s = takeWhile (\<lambda>c. c \<noteq> NL) s @ NL # tl (dropWhile (\<lambda>c. c \<noteq> NL) s)"
proof -
  have "dropWhile (\<lambda>c. c \<noteq> NL) s \<noteq> []"
    using assms by simp
  then obtain y ys where d: "dropWhile (\<lambda>c. c \<noteq> NL) s = y # ys"
    by (cases "dropWhile (\<lambda>c. c \<noteq> NL) s") auto
  then have "y = NL"
    using hd_dropWhile [of "\<lambda>c. c \<noteq> NL" s] by simp
  with d have "takeWhile (\<lambda>c. c \<noteq> NL) s @ NL # tl (dropWhile (\<lambda>c. c \<noteq> NL) s)
      = takeWhile (\<lambda>c. c \<noteq> NL) s @ dropWhile (\<lambda>c. c \<noteq> NL) s"
    by simp
  then show ?thesis by simp
qed

text \<open>Induction along the inner loop.\<close>

lemma lines_induct [case_names stop line]:
  assumes stop: "\<And>st. \<not> (mainpc st = InLoop \<and> NL \<in> set (buffer st)) \<Longrightarrow> P st"
    and line: "\<And>st l rest. mainpc st = InLoop \<Longrightarrow> NL \<notin> set l \<Longrightarrow> buffer st = l @ NL # rest \<Longrightarrow>
                 P (handle_line cfg now l (st\<lparr>buffer := rest\<rparr>)) \<Longrightarrow> P st"
  shows "P st"
proof (induction "length (buffer st)" arbitrary: st rule: less_induct)
  case less
  show ?case
  proof (cases "mainpc st = InLoop \<and> NL \<in> set (buffer st)")
    case False
    then show ?thesis by (rule stop)
  next
    case True
    define l where "l = takeWhile (\<lambda>c. c \<noteq> NL) (buffer st)"
    define rest where "rest = tl (dropWhile (\<lambda>c. c \<noteq> NL) (buffer st))"
    have b: "buffer st = l @ NL # rest"
      unfolding l_def rest_def using True by (intro split_at_NL) simp
    have l: "NL \<notin> set l"
      unfolding l_def by (auto dest: set_takeWhileD)
    have "P (handle_line cfg now l (st\<lparr>buffer := rest\<rparr>))"
      by (rule less) (simp add: b)
    with True l b show ?thesis
      by (intro line [of st l rest]) simp_all
  qed
qed

lemma process_lines_at_line:
  assumes "mainpc st = InLoop" and "NL \<notin> set l" and "buffer st = l @ NL # rest"
  shows "process_lines cfg now st =
           process_lines cfg now (handle_line cfg now l (st\<lparr>buffer := rest\<rparr>))"
proof -
  have "st = st\<lparr>buffer := l @ NL # rest\<rparr>"
    using assms(3) by simp
  then have "process_lines cfg now st = process_lines cfg now (st\<lparr>buffer := l @ NL # rest\<rparr>)"
    by simp
  also have "\<dots> = process_lines cfg now (handle_line cfg now l (st\<lparr>buffer := rest\<rparr>))"
    using assms(1,2) by (rule process_lines_line)
  finally show ?thesis .
qed

lemma process_lines_done:
  "\<not> (mainpc st = InLoop \<and> NL \<in> set (buffer st)) \<Longrightarrow> process_lines cfg now st = st"
  by (subst process_lines.simps) auto

lemma process_lines_mainpc [simp]: "mainpc (process_lines cfg now st) = mainpc st"
proof (induction st rule: lines_induct [where cfg = cfg and now = now])
  case (stop st)
  then have "process_lines cfg now st = st"
    by (rule process_lines_done)
  then show ?case by simp
next
  case (line st l rest)
  have "process_lines cfg now st =
          process_lines cfg now (handle_line cfg now l (st\<lparr>buffer := rest\<rparr>))"
    using line(1-3) by (rule process_lines_at_line)
  with line(4) show ?case by simp
qed

lemma process_lines_no_NL:
  "mainpc st = InLoop \<Longrightarrow> NL \<notin> set (buffer (process_lines cfg now st))"
proof (induction st rule: lines_induct [where cfg = cfg and now = now])
  case (stop st)
  from stop(1) have "process_lines cfg now st = st"
    by (rule process_lines_done)
  with stop show ?case by auto
next
  case (line st l rest)
  have "process_lines cfg now st =
          process_lines cfg now (handle_line cfg now l (st\<lparr>buffer := rest\<rparr>))"
    using line(1-3) by (rule process_lines_at_line)
  moreover have "NL \<notin> set (buffer (process_lines cfg now (handle_line cfg now l (st\<lparr>buffer := rest\<rparr>))))"
    using line(1) by (intro line(4)) simp
  ultimately show ?case by simp
qed

text \<open>Text that arrives later does not change what the lines already complete produce.\<close>

lemma process_lines_append:
  "mainpc st = InLoop \<Longrightarrow>
   process_lines cfg now
     ((process_lines cfg now st)\<lparr>buffer := buffer (process_lines cfg now st) @ s\<rparr>) =
   process_lines cfg now (st\<lparr>buffer := buffer st @ s\<rparr>)"
proof (induction st rule: lines_induct [where cfg = cfg and now = now])
  case (stop st)
  from stop(1) have "process_lines cfg now st = st"
    by (rule process_lines_done)
  then show ?case by simp
next
  case (line st l rest)
  define st' where "st' = handle_line cfg now l (st\<lparr>buffer := rest\<rparr>)"
  have m: "mainpc st' = InLoop"
    using line(1) by (simp add: st'_def)
  have b: "buffer st' = rest"
    by (simp add: st'_def)
  have 1: "process_lines cfg now st = process_lines cfg now st'"
    unfolding st'_def using line(1-3) by (rule process_lines_at_line)
  have "process_lines cfg now (st\<lparr>buffer := buffer st @ s\<rparr>) =
        process_lines cfg now
          (handle_line cfg now l (st\<lparr>buffer := buffer st @ s\<rparr>\<lparr>buffer := rest @ s\<rparr>))"
    using line(1-3) by (intro process_lines_at_line) simp_all
  also have "handle_line cfg now l (st\<lparr>buffer := buffer st @ s\<rparr>\<lparr>buffer := rest @ s\<rparr>) =
        st'\<lparr>buffer := buffer st' @ s\<rparr>"
    by (simp add: st'_def handle_line_buffer_update)
  finally have 2: "process_lines cfg now (st\<lparr>buffer := buffer st @ s\<rparr>) =
        process_lines cfg now (st'\<lparr>buffer := buffer st' @ s\<rparr>)" .
  have "process_lines cfg now
     ((process_lines cfg now st')\<lparr>buffer := buffer (process_lines cfg now st') @ s\<rparr>) =
     process_lines cfg now (st'\<lparr>buffer := buffer st' @ s\<rparr>)"
    unfolding st'_def by (rule line(4)) (simp add: line(1))
  with 1 2 show ?case by simp
qed

section \<open>The read loop\<close>

lemma read_chunk_eq:
  "read_chunk cfg now data st = process_lines cfg now (st\<lparr>buffer := buffer st @ decoded data\<rparr>)"
  by (simp add: read_chunk_def decode_chunk_def utf8_replace_decoded)

lemma run_Nil [simp]: "run cfg now [] st = st"
  by (simp add: run_def)

lemma run_Cons [simp]: "run cfg now (e # es) st = run cfg now es (step cfg now st e)"
  by (simp add: run_def)

lemma run_append: "run cfg now (es @ fs) st = run cfg now fs (run cfg now es st)"
  by (simp add: run_def)

lemma step_Chunk:
  "mainpc st = InLoop \<Longrightarrow>
   step cfg now st (Chunk data) =
     (if data = [] then st
      else process_lines cfg now (st\<lparr>buffer := buffer st @ decoded data\<rparr>))"
  by (simp add: step_def main_step_def read_chunk_eq)

lemma step_Chunk_after_lines:
  assumes "mainpc st = InLoop"
  shows "step cfg now (process_lines cfg now st) (Chunk data) =
           process_lines cfg now (st\<lparr>buffer := buffer st @ decoded data\<rparr>)"
proof (cases "data = []")
  case True
  then show ?thesis using assms by (simp add: step_Chunk decoded_Nil)
next
  case False
  then show ?thesis using assms by (simp add: step_Chunk process_lines_append)
qed

lemma feed_chunks:
  "mainpc st = InLoop \<Longrightarrow>
   run cfg now (map Chunk chunks) (process_lines cfg now st) =
     process_lines cfg now (st\<lparr>buffer := buffer st @ concat (map decoded chunks)\<rparr>)"
proof (induction chunks arbitrary: st)
  case Nil
  then show ?case by simp
next
  case (Cons c cs)
  have "run cfg now (map Chunk (c # cs)) (process_lines cfg now st) =
        run cfg now (map Chunk cs)
          (process_lines cfg now (st\<lparr>buffer := buffer st @ decoded c\<rparr>))"
    using Cons.prems by (simp add: step_Chunk_after_lines)
  also have "\<dots> = process_lines cfg now
      (st\<lparr>buffer := buffer st @ decoded c\<rparr>
         \<lparr>buffer := buffer (st\<lparr>buffer := buffer st @ decoded c\<rparr>) @ concat (map decoded cs)\<rparr>)"
    using Cons.prems by (intro Cons.IH) simp
  finally show ?case by simp
qed

lemma process_lines_start: "process_lines cfg now (start cfg) = start cfg"
  by (rule process_lines_done) (simp add: start_def)

lemma feed_from_start:
  "run cfg now (map Chunk chunks) (start cfg) =
     process_lines cfg now ((start cfg)\<lparr>buffer := concat (map decoded chunks)\<rparr>)"
proof -
  have "run cfg now (map Chunk chunks) (process_lines cfg now (start cfg)) =
        process_lines cfg now
          ((start cfg)\<lparr>buffer := buffer (start cfg) @ concat (map decoded chunks)\<rparr>)"
    by (rule feed_chunks) (simp add: start_def)
  then show ?thesis
    by (simp add: process_lines_start) (simp add: start_def)
qed

lemma strict_chunks_commute:
  "\<forall>c\<in>set chunks. utf8_decode Strict c \<noteq> Inl UnicodeDecodeError \<Longrightarrow>
   decoded (concat chunks) = concat (map decoded chunks)"
proof (induction chunks)
  case Nil
  then show ?case by (simp add: decoded_Nil)
next
  case (Cons c cs)
  then obtain s where s: "utf8_decode Strict c = Inr s"
    by (cases "utf8_decode Strict c") (auto, metis error.exhaust)
  then have "decoded c = s"
    using strict_replace [OF s] by (simp add: decoded_def)
  with s Cons show ?case
    by (simp add: strict_append)
qed

text \<open>Rules that evaluate the model on a concrete input.\<close>

lemmas run_eval =
  step_def main_step_def read_chunk_eq decoded_Cons decoded_Nil is_cont_def second_ok_def
  cp2_def cp3_def cp4_def REPLACEMENT_def process_lines_unfold process_lines_done
  handle_line_def rstrip_def should_display_def forward_eq format_line_def start_def
  log_enabled_def NL_def CR_def

lemmas scenario_eval =
  run_eval cfg_plain_def cfg_logging_def cfg_ERR_def clock0_def bytes_of_def ascii_def

section \<open>Stripping carriage returns\<close>

lemma rstrip_replicate: "rstrip c (replicate k c) = []"
  by (simp add: rstrip_def)

lemma rstrip_content:
  assumes "content \<noteq> []" and "last content \<noteq> c"
  shows "rstrip c (content @ replicate k c) = content"
proof -
  obtain ys y where c: "content = ys @ [y]" and y: "y \<noteq> c"
    using assms by (cases content rule: rev_cases) auto
  have "dropWhile (\<lambda>x. x = c) (replicate k c @ y # rev ys) = y # rev ys"
    using y by (induction k) simp_all
  then have "dropWhile (\<lambda>x. x = c) (replicate k c @ rev content) = rev content"
    by (simp add: c)
  then show ?thesis
    by (simp add: rstrip_def)
qed

lemma process_lines_empty_buffer:
  "mainpc st = InLoop \<Longrightarrow> buffer st = [] \<or> last (buffer st) = NL \<Longrightarrow>
   buffer (process_lines cfg now st) = []"
proof (induction st rule: lines_induct [where cfg = cfg and now = now])
  case (stop st)
  from stop(1) have "process_lines cfg now st = st"
    by (rule process_lines_done)
  moreover have "buffer st = []"
  proof (rule ccontr)
    assume "buffer st \<noteq> []"
    with stop(3) have "NL \<in> set (buffer st)"
      using last_in_set [of "buffer st"] by auto
    with stop(1,2) show False by simp
  qed
  ultimately show ?case by simp
next
  case (line st l rest)
  have 1: "process_lines cfg now st =
          process_lines cfg now (handle_line cfg now l (st\<lparr>buffer := rest\<rparr>))"
    using line(1-3) by (rule process_lines_at_line)
  have "rest = [] \<or> last rest = NL"
    using line(3,6) by (cases "rest = []") auto
  then have "buffer (process_lines cfg now (handle_line cfg now l (st\<lparr>buffer := rest\<rparr>))) = []"
    using line(1) by (intro line(4)) simp_all
  with 1 show ?case by simp
qed

lemma process_lines_tail:
  assumes "mainpc st = InLoop" and "NL \<notin> set tail"
  shows "process_lines cfg now (st\<lparr>buffer := pre @ NL # tail\<rparr>) =
           (process_lines cfg now (st\<lparr>buffer := pre @ [NL]\<rparr>))\<lparr>buffer := tail\<rparr>"
proof -
  let ?st0 = "st\<lparr>buffer := pre @ [NL]\<rparr>"
  have m: "mainpc ?st0 = InLoop"
    using assms(1) by simp
  have e: "buffer (process_lines cfg now ?st0) = []"
    using m by (rule process_lines_empty_buffer) simp
  have "process_lines cfg now
          ((process_lines cfg now ?st0)\<lparr>buffer := buffer (process_lines cfg now ?st0) @ tail\<rparr>) =
        process_lines cfg now (?st0\<lparr>buffer := buffer ?st0 @ tail\<rparr>)"
    using m by (rule process_lines_append)
  then have "process_lines cfg now (st\<lparr>buffer := pre @ NL # tail\<rparr>) =
        process_lines cfg now ((process_lines cfg now ?st0)\<lparr>buffer := tail\<rparr>)"
    by (simp add: e)
  also have "\<dots> = (process_lines cfg now ?st0)\<lparr>buffer := tail\<rparr>"
    using assms(2) by (intro process_lines_done) simp
  finally show ?thesis .
qed

lemma NL_not_CR: "NL \<notin> set (replicate k CR)"
  by (simp add: NL_def CR_def)

section \<open>The matcher\<close>

lemma nullable_lang: "nullable r \<longleftrightarrow> [] \<in> lang r"
  by (induction r) (auto intro: star_empty)

lemma star_lang_ConsD:
  "x \<in> star_lang L \<Longrightarrow>
   \<forall>w. x = a # w \<longrightarrow> (\<exists>u v. w = u @ v \<and> a # u \<in> L \<and> v \<in> star_lang L)"
proof (induction rule: star_lang.induct)
  case star_empty
  show ?case by simp
next
  case (star_more u v)
  show ?case
  proof (intro allI impI)
    fix w
    assume e: "u @ v = a # w"
    show "\<exists>u v. w = u @ v \<and> a # u \<in> L \<and> v \<in> star_lang L"
    proof (cases u)
      case Nil
      with e star_more.IH show ?thesis by simp
    next
      case (Cons b u')
      with e have "w = u' @ v" "a # u' = u" by simp_all
      with star_more.hyps show ?thesis by blast
    qed
  qed
qed

lemma star_lang_Cons:
  "a # w \<in> star_lang L \<longleftrightarrow> (\<exists>u v. w = u @ v \<and> a # u \<in> L \<and> v \<in> star_lang L)"
proof
  assume "a # w \<in> star_lang L"
  then show "\<exists>u v. w = u @ v \<and> a # u \<in> L \<and> v \<in> star_lang L"
    using star_lang_ConsD by blast
next
  assume "\<exists>u v. w = u @ v \<and> a # u \<in> L \<and> v \<in> star_lang L"
  then obtain u v where "w = u @ v" "a # u \<in> L" "v \<in> star_lang L"
    by blast
  then show "a # w \<in> star_lang L"
    using star_more [of "a # u" L v] by simp
qed

lemma deriv_lang: "w \<in> lang (deriv a r) \<longleftrightarrow> a # w \<in> lang r"
proof (induction r arbitrary: w)
  case (Seq r s)
  have "a # w \<in> lang (Seq r s) \<longleftrightarrow>
        ([] \<in> lang r \<and> a # w \<in> lang s) \<or> (\<exists>u v. w = u @ v \<and> a # u \<in> lang r \<and> v \<in> lang s)"
    by (auto simp: Cons_eq_append_conv)
  with Seq show ?case
    by (auto simp: nullable_lang)
next
  case (Star r)
  then show ?case
    by (auto simp: star_lang_Cons)
qed auto

lemma match_here_lang: "match_here r s \<longleftrightarrow> (\<exists>u v. s = u @ v \<and> u \<in> lang r)"
proof (induction s arbitrary: r)
  case Nil
  then show ?case by (simp add: nullable_lang)
next
  case (Cons c cs)
  have "(\<exists>u v. c # cs = u @ v \<and> u \<in> lang r) \<longleftrightarrow>
        [] \<in> lang r \<or> (\<exists>u v. cs = u @ v \<and> c # u \<in> lang r)"
    by (auto simp: Cons_eq_append_conv)
  with Cons show ?case
    by (simp add: nullable_lang deriv_lang)
qed

lemma search_lang: "search r s \<longleftrightarrow> (\<exists>p u v. s = p @ u @ v \<and> u \<in> lang r)"
proof (induction s)
  case Nil
  then show ?case by (simp add: nullable_lang)
next
  case (Cons c cs)
  have "(\<exists>p u v. c # cs = p @ u @ v \<and> u \<in> lang r) \<longleftrightarrow>
        (\<exists>u v. c # cs = u @ v \<and> u \<in> lang r) \<or> (\<exists>p u v. cs = p @ u @ v \<and> u \<in> lang r)"
    (is "?L \<longleftrightarrow> ?A \<or> ?B")
  proof
    assume ?L
    then obtain p u v where e: "c # cs = p @ u @ v" and u: "u \<in> lang r"
      by blast
    show "?A \<or> ?B"
    proof (cases p)
      case Nil
      with e u show ?thesis by auto
    next
      case (Cons d p')
      with e u have "cs = p' @ u @ v" by simp
      with u show ?thesis by blast
    qed
  next
    assume "?A \<or> ?B"
    then show ?L
    proof
      assume ?A
      then obtain u v where "c # cs = [] @ u @ v" "u \<in> lang r" by auto
      then show ?L by blast
    next
      assume ?B
      then obtain p u v where "c # cs = (c # p) @ u @ v" "u \<in> lang r" by auto
      then show ?L by blast
    qed
  qed
  with Cons show ?case
    by (simp only: search.simps match_here_lang)
qed

lemma literal_lang: "lang (literal p) = {p}"
  by (induction p) auto

section \<open>The two threads\<close>

lemma handle_line_frame:
  "running (handle_line cfg now raw st) = running st
   \<and> log_written (handle_line cfg now raw st) = log_written st
   \<and> writer (handle_line cfg now raw st) = writer st"
  by (simp add: handle_line_def forward_eq)

lemma process_lines_frame:
  "running (process_lines cfg now st) = running st
   \<and> log_written (process_lines cfg now st) = log_written st
   \<and> writer (process_lines cfg now st) = writer st"
proof (induction st rule: lines_induct [where cfg = cfg and now = now])
  case (stop st)
  then have "process_lines cfg now st = st"
    by (rule process_lines_done)
  then show ?case by simp
next
  case (line st l rest)
  have "process_lines cfg now st =
          process_lines cfg now (handle_line cfg now l (st\<lparr>buffer := rest\<rparr>))"
    using line(1-3) by (rule process_lines_at_line)
  with line(4) show ?case
    by (simp add: handle_line_frame)
qed

lemma step_main_ignored:
  "mainpc st \<noteq> InLoop \<Longrightarrow> ev \<noteq> WriterStep \<Longrightarrow> step cfg now st ev = st"
  by (simp add: step_def)

lemma step_WriterStep: "step cfg now st WriterStep = writer_step st"
  by (simp add: step_def)

lemma writer_step_mainpc [simp]: "mainpc (writer_step st) = mainpc st"
  by (simp add: writer_step_def split: writer_pc.split list.split)

lemma writer_step_running [simp]: "running (writer_step st) = running st"
  by (simp add: writer_step_def split: writer_pc.split list.split)

lemma finally_block_fields:
  "mainpc (finally_block st) = Finished \<and> \<not> running (finally_block st)
   \<and> log_queue (finally_block st) = log_queue st
   \<and> log_written (finally_block st) = log_written st
   \<and> writer (finally_block st) = writer st"
  by (simp add: finally_block_def disconnect_def print_def)

lemma print_fields:
  "mainpc (print s st) = mainpc st \<and> running (print s st) = running st
   \<and> log_queue (print s st) = log_queue st \<and> log_written (print s st) = log_written st
   \<and> writer (print s st) = writer st"
  by (simp add: print_def)

lemma step_mainpc_cases:
  "mainpc (step cfg now st ev) = mainpc st \<or> mainpc (step cfg now st ev) = Finished"
proof (cases ev)
  case (Chunk data)
  then show ?thesis by (simp add: step_def main_step_def read_chunk_eq)
next
  case NoData
  then show ?thesis by (simp add: step_def main_step_def)
next
  case KeyboardInterrupt
  then show ?thesis by (simp add: step_def main_step_def finally_block_fields)
next
  case (IOFailure e)
  then show ?thesis by (simp add: step_def main_step_def finally_block_fields)
next
  case WriterStep
  then show ?thesis by (simp add: step_def)
qed

lemma run_never_blocked:
  "mainpc st \<noteq> BlockedOnPut \<Longrightarrow> mainpc (run cfg now evs st) \<noteq> BlockedOnPut"
proof (induction evs arbitrary: st)
  case Nil
  then show ?case by simp
next
  case (Cons e es)
  have "mainpc (step cfg now st e) \<noteq> BlockedOnPut"
    using Cons.prems step_mainpc_cases [of cfg now st e] by auto
  then show ?case
    by (simp add: Cons.IH)
qed

lemma run_finished_stays: "mainpc st = Finished \<Longrightarrow> mainpc (run cfg now evs st) = Finished"
proof (induction evs arbitrary: st)
  case Nil
  then show ?case by simp
next
  case (Cons e es)
  have "mainpc (step cfg now st e) = Finished"
    using Cons.prems step_mainpc_cases [of cfg now st e] by auto
  then show ?case
    by (simp add: Cons.IH)
qed

lemma step_stop_finishes:
  "ev = KeyboardInterrupt \<or> ev = IOFailure e \<Longrightarrow> mainpc st \<noteq> BlockedOnPut \<Longrightarrow>
   mainpc (step cfg now st ev) = Finished"
  by (cases "mainpc st") (auto simp: step_def main_step_def finally_block_fields)

lemma run_stop_finishes:
  "KeyboardInterrupt \<in> set evs \<or> IOFailure e \<in> set evs \<Longrightarrow> mainpc st \<noteq> BlockedOnPut \<Longrightarrow>
   mainpc (run cfg now evs st) = Finished"
proof (induction evs arbitrary: st)
  case Nil
  then show ?case by simp
next
  case (Cons x xs)
  have nb: "mainpc (step cfg now st x) \<noteq> BlockedOnPut"
    using Cons.prems(2) step_mainpc_cases [of cfg now st x] by auto
  show ?case
  proof (cases "x = KeyboardInterrupt \<or> x = IOFailure e")
    case True
    then have "mainpc (step cfg now st x) = Finished"
      using Cons.prems(2) by (rule step_stop_finishes)
    then show ?thesis
      by (simp add: run_finished_stays)
  next
    case False
    with Cons.prems(1) have "KeyboardInterrupt \<in> set xs \<or> IOFailure e \<in> set xs"
      by auto
    then show ?thesis
      using nb by (simp add: Cons.IH)
  qed
qed

lemma start_fields:
  "mainpc (start cfg) = InLoop \<and> running (start cfg) \<and> buffer (start cfg) = []
   \<and> log_queue (start cfg) = [] \<and> log_written (start cfg) = []"
  by (simp add: start_def)

text \<open>After the stop: what the writer thread can still do.\<close>

lemma writer_step_at_head:
  "writer st = AtLoopHead \<Longrightarrow> \<not> running st \<Longrightarrow> writer_step st = st\<lparr>writer := WriterExited\<rparr>"
  by (simp add: writer_step_def)

lemma writer_step_get_empty:
  "writer st = InGet \<Longrightarrow> log_queue st = [] \<Longrightarrow> writer_step st = st\<lparr>writer := AtLoopHead\<rparr>"
  by (simp add: writer_step_def)

lemma writer_step_get_entry:
  "writer st = InGet \<Longrightarrow> log_queue st = x # q \<Longrightarrow>
   writer_step st =
     st\<lparr>log_queue := q, log_written := log_written st @ [x], writer := AtLoopHead\<rparr>"
  by (simp add: writer_step_def)

lemma writer_step_none:
  "writer st = NoWriter \<or> writer st = WriterExited \<Longrightarrow> writer_step st = st"
  by (auto simp: writer_step_def)

lemma stopped_step:
  assumes "mainpc st = Finished" and "\<not> running st"
  shows "mainpc (step cfg now st ev) = Finished \<and> \<not> running (step cfg now st ev)
    \<and> log_written (step cfg now st ev) @ log_queue (step cfg now st ev) =
        log_written st @ log_queue st
    \<and> length (log_written (step cfg now st ev)) \<le> Suc (length (log_written st))
    \<and> (writer st \<noteq> InGet \<longrightarrow>
         writer (step cfg now st ev) \<noteq> InGet
         \<and> log_written (step cfg now st ev) = log_written st)
    \<and> (writer st = InGet \<longrightarrow>
         step cfg now st ev = st \<or> writer (step cfg now st ev) \<noteq> InGet)"
proof (cases "ev = WriterStep")
  case True
  then have e: "step cfg now st ev = writer_step st"
    by (simp add: step_def)
  show ?thesis
  proof (cases "writer st")
    case NoWriter
    then have "writer_step st = st"
      by (simp add: writer_step_none)
    with e assms NoWriter show ?thesis by simp
  next
    case AtLoopHead
    then have "writer_step st = st\<lparr>writer := WriterExited\<rparr>"
      using assms(2) by (rule writer_step_at_head)
    with e assms AtLoopHead show ?thesis by simp
  next
    case InGet
    show ?thesis
    proof (cases "log_queue st")
      case Nil
      with InGet have "writer_step st = st\<lparr>writer := AtLoopHead\<rparr>"
        by (rule writer_step_get_empty)
      with e assms InGet Nil show ?thesis by simp
    next
      case (Cons x q)
      with InGet have "writer_step st =
          st\<lparr>log_queue := q, log_written := log_written st @ [x], writer := AtLoopHead\<rparr>"
        by (rule writer_step_get_entry)
      with e assms InGet Cons show ?thesis by simp
    qed
  next
    case WriterExited
    then have "writer_step st = st"
      by (simp add: writer_step_none)
    with e assms WriterExited show ?thesis by simp
  qed
next
  case False
  with assms have "step cfg now st ev = st"
    by (simp add: step_main_ignored)
  with assms show ?thesis by simp
qed

lemma stopped_run_idle:
  assumes "mainpc st = Finished" and "\<not> running st" and "writer st \<noteq> InGet"
  shows "log_written (run cfg now evs st) = log_written st
    \<and> log_queue (run cfg now evs st) = log_queue st"
  using assms
proof (induction evs arbitrary: st)
  case Nil
  then show ?case by simp
next
  case (Cons e es)
  define st' where "st' = step cfg now st e"
  from stopped_step [OF Cons.prems(1,2), of cfg now e] Cons.prems(3)
  have s: "mainpc st' = Finished" "\<not> running st'" "writer st' \<noteq> InGet"
    and w: "log_written st' = log_written st"
    and a: "log_written st' @ log_queue st' = log_written st @ log_queue st"
    unfolding st'_def by blast+
  from w a have q: "log_queue st' = log_queue st"
    by simp
  have "log_written (run cfg now es st') = log_written st'
      \<and> log_queue (run cfg now es st') = log_queue st'"
    using s by (rule Cons.IH)
  then show ?case
    unfolding run_Cons st'_def [symmetric] by (simp only: w q)
qed

lemma stopped_run:
  assumes "mainpc st = Finished" and "\<not> running st"
  shows "log_written (run cfg now evs st) @ log_queue (run cfg now evs st) =
           log_written st @ log_queue st
    \<and> length (log_written (run cfg now evs st)) \<le> Suc (length (log_written st))"
  using assms
proof (induction evs arbitrary: st)
  case Nil
  then show ?case by simp
next
  case (Cons e es)
  define st' where "st' = step cfg now st e"
  note s = stopped_step [OF Cons.prems, of cfg now e, folded st'_def]
  show ?case
  proof (cases "writer st' = InGet")
    case True
    with s have "st' = st"
      by (cases "writer st = InGet") blast+
    with Cons.IH [OF Cons.prems] show ?thesis
      unfolding run_Cons st'_def [symmetric] by (simp only:)
  next
    case False
    from s have f: "mainpc st' = Finished" "\<not> running st'"
      by blast+
    from stopped_run_idle [OF f False, of cfg now es]
    have i: "log_written (run cfg now es st') = log_written st'"
      "log_queue (run cfg now es st') = log_queue st'"
      by blast+
    from s have "log_written st' @ log_queue st' = log_written st @ log_queue st"
      "length (log_written st') \<le> Suc (length (log_written st))"
      by blast+
    then show ?thesis
      unfolding run_Cons st'_def [symmetric] by (simp only: i simp_thms)
  qed
qed

lemma feed_lines_logging:
  "run cfg_logging clock0 (replicate n (Chunk (bytes_of ''a'' @ [0x0A]))) (start cfg_logging) =
     (start cfg_logging)\<lparr>console := replicate n (ascii ''a''),
                           log_queue := replicate n (ascii ''a'' @ [NL])\<rparr>"
proof (induction n)
  case 0
  show ?case by (simp add: start_def)
next
  case (Suc n)
  have "run cfg_logging clock0 (replicate (Suc n) (Chunk (bytes_of ''a'' @ [0x0A]))) (start cfg_logging) =
      step cfg_logging clock0
        (run cfg_logging clock0 (replicate n (Chunk (bytes_of ''a'' @ [0x0A]))) (start cfg_logging))
        (Chunk (bytes_of ''a'' @ [0x0A]))"
  proof -
    have "replicate (Suc n) (Chunk (bytes_of ''a'' @ [0x0A])) =
        replicate n (Chunk (bytes_of ''a'' @ [0x0A])) @ [Chunk (bytes_of ''a'' @ [0x0A])]"
      by (simp add: replicate_append_same)
    then show ?thesis
      by (simp only: run_append run_Cons run_Nil)
  qed
  also have "\<dots> = step cfg_logging clock0
      ((start cfg_logging)\<lparr>console := replicate n (ascii ''a''),
                            log_queue := replicate n (ascii ''a'' @ [NL])\<rparr>)
      (Chunk (bytes_of ''a'' @ [0x0A]))"
    by (simp only: Suc)
  also have "\<dots> = (start cfg_logging)\<lparr>console := replicate n (ascii ''a'') @ [ascii ''a''],
                           log_queue := replicate n (ascii ''a'' @ [NL]) @ [ascii ''a'' @ [NL]]\<rparr>"
    by (simp add: scenario_eval)
  finally show ?case
    by (simp only: replicate_append_same) simp
qed

section \<open>The claims\<close>

text \<open>
  C1 (as amended). Feeding the chunks one at a time leaves the session in the same state
  (console, log queue, pending buffer) as feeding their concatenation as one chunk,
  provided that decoding the chunks one by one gives the text that decoding the whole
  gives; that is so, in particular, when every chunk is well-formed UTF-8 on its own, so
  that no chunk boundary cuts a multi-byte sequence. The \<open>k\<close>-th line forwarded reads
  the \<open>k\<close>-th value of the clock in both runs.
\<close>

theorem chunking_preserves_output:
  "(decoded (concat chunks) = concat (map decoded chunks) \<longrightarrow>
      run cfg now (map Chunk chunks) (start cfg) = run cfg now [Chunk (concat chunks)] (start cfg))
   \<and> ((\<forall>c\<in>set chunks. utf8_decode Strict c \<noteq> Inl UnicodeDecodeError) \<longrightarrow>
      run cfg now (map Chunk chunks) (start cfg) = run cfg now [Chunk (concat chunks)] (start cfg))"
proof -
  have one: "run cfg now [Chunk (concat chunks)] (start cfg) =
        process_lines cfg now ((start cfg)\<lparr>buffer := decoded (concat chunks)\<rparr>)"
    using feed_from_start [of cfg now "[concat chunks]"] by simp
  have "run cfg now (map Chunk chunks) (start cfg) = run cfg now [Chunk (concat chunks)] (start cfg)"
    if "decoded (concat chunks) = concat (map decoded chunks)"
    using that one by (simp add: feed_from_start)
  then show ?thesis
    using strict_chunks_commute [of chunks] by blast
qed

theorem chunking_preserves_output_witness:
  "decoded (concat [[0xC3, 0xA9], [0x0D, 0x0A, 0x62]]) =
     concat (map decoded [[0xC3, 0xA9], [0x0D, 0x0A, 0x62]])
   \<and> run cfg_logging clock0 (map Chunk [[0xC3, 0xA9], [0x0D, 0x0A, 0x62]]) (start cfg_logging) =
     run cfg_logging clock0 [Chunk (concat [[0xC3, 0xA9], [0x0D, 0x0A, 0x62]])] (start cfg_logging)
   \<and> console (run cfg_logging clock0 (map Chunk [[0xC3, 0xA9], [0x0D, 0x0A, 0x62]])
        (start cfg_logging)) = [[0xE9]]"
proof -
  have h: "decoded (concat [[0xC3, 0xA9], [0x0D, 0x0A, 0x62]]) =
      concat (map decoded [[0xC3, 0xA9], [0x0D, 0x0A, 0x62 :: byte]])"
    by (simp add: scenario_eval)
  have "console (run cfg_logging clock0 (map Chunk [[0xC3, 0xA9], [0x0D, 0x0A, 0x62]])
        (start cfg_logging)) = [[0xE9]]"
    by (simp add: scenario_eval)
  with h chunking_preserves_output [of "[[0xC3, 0xA9], [0x0D, 0x0A, 0x62]]" cfg_logging clock0]
  show ?thesis by blast
qed

text \<open>
  C1 as stated fails: the bytes C3 A9 0A (an e with acute accent and a line feed) give the
  line U+00E9 when they arrive as one chunk, and a line of two placeholders U+FFFD when
  the chunk boundary falls between C3 and A9, since each chunk is decoded on its own.
\<close>

theorem chunking_counterexample:
  "\<not> (\<forall>chunks. console (run cfg_plain clock0 (map Chunk chunks) (start cfg_plain)) =
                 console (run cfg_plain clock0 [Chunk (concat chunks)] (start cfg_plain)))"
proof
  assume "\<forall>chunks. console (run cfg_plain clock0 (map Chunk chunks) (start cfg_plain)) =
                 console (run cfg_plain clock0 [Chunk (concat chunks)] (start cfg_plain))"
  then have "console (run cfg_plain clock0 (map Chunk [[0xC3], [0xA9, 0x0A]]) (start cfg_plain)) =
      console (run cfg_plain clock0 [Chunk (concat [[0xC3], [0xA9, 0x0A]])] (start cfg_plain))"
    by blast
  moreover have "console (run cfg_plain clock0 (map Chunk [[0xC3], [0xA9, 0x0A]]) (start cfg_plain))
      = [[0xFFFD, 0xFFFD]]"
    by (simp add: scenario_eval)
  moreover have "console (run cfg_plain clock0 [Chunk (concat [[0xC3], [0xA9, 0x0A]])] (start cfg_plain))
      = [[0xE9]]"
    by (simp add: scenario_eval)
  ultimately show False by simp
qed



text \<open>
  C5 (as amended). A line that consists of a terminator only (a line feed, possibly
  after carriage returns) is taken out of the buffer and skipped by the test
  \<open>if line and ...\<close>: the read loop goes on as if the line had not been there, and
  nothing is printed or queued for it.
\<close>

theorem empty_line_skipped:
  assumes "mainpc st = InLoop"
  shows "process_lines cfg now (st\<lparr>buffer := replicate k CR @ NL # rest\<rparr>) =
           process_lines cfg now (st\<lparr>buffer := rest\<rparr>)"
proof -
  have "process_lines cfg now (st\<lparr>buffer := replicate k CR @ NL # rest\<rparr>) =
        process_lines cfg now (handle_line cfg now (replicate k CR) (st\<lparr>buffer := rest\<rparr>))"
    using assms NL_not_CR by (rule process_lines_line)
  then show ?thesis
    by (simp add: handle_line_def rstrip_replicate)
qed

theorem empty_line_skipped_witness:
  "mainpc (start cfg_logging) = InLoop
   \<and> process_lines cfg_logging clock0
        ((start cfg_logging)\<lparr>buffer := replicate 1 CR @ NL # ascii ''OK'' @ [NL]\<rparr>) =
      process_lines cfg_logging clock0 ((start cfg_logging)\<lparr>buffer := ascii ''OK'' @ [NL]\<rparr>)
   \<and> console (process_lines cfg_logging clock0
        ((start cfg_logging)\<lparr>buffer := replicate 1 CR @ NL # ascii ''OK'' @ [NL]\<rparr>)) =
      [ascii ''OK'']"
proof -
  have m: "mainpc (start cfg_logging) = InLoop"
    by (simp add: start_def)
  have "console (process_lines cfg_logging clock0 ((start cfg_logging)\<lparr>buffer := ascii ''OK'' @ [NL]\<rparr>))
      = [ascii ''OK'']"
    by (simp add: scenario_eval)
  with m empty_line_skipped [OF m, of cfg_logging clock0 1 "ascii ''OK'' @ [NL]"]
  show ?thesis by simp
qed

text \<open>
  C5 as stated fails: after the bytes 0D 0A nothing has been printed and nothing has been
  queued for the log; no empty record is forwarded.
\<close>

theorem empty_line_counterexample:
  "console (run cfg_logging clock0 [Chunk [0x0D, 0x0A]] (start cfg_logging)) = []
   \<and> log_queue (run cfg_logging clock0 [Chunk [0x0D, 0x0A]] (start cfg_logging)) = []
   \<and> console (run cfg_logging clock0 [Chunk [0x0D, 0x0A]] (start cfg_logging)) \<noteq> [[]]"
  by (simp add: scenario_eval)

text \<open>
  C7 (as amended). \<open>rstrip\<close> removes every trailing carriage return and nothing else:
  for a content that does not end in a carriage return, followed by any number \<open>k\<close> of
  carriage returns and the line feed, the line handled is the content itself.
\<close>

theorem all_trailing_CR_stripped:
  assumes "mainpc st = InLoop" and "NL \<notin> set content"
    and "content \<noteq> []" and "last content \<noteq> CR"
  shows "rstrip CR (content @ replicate k CR) = content
    \<and> process_lines cfg now (st\<lparr>buffer := content @ replicate k CR @ NL # rest\<rparr>) =
        process_lines cfg now
          (if should_display cfg content then forward cfg now content (st\<lparr>buffer := rest\<rparr>)
           else st\<lparr>buffer := rest\<rparr>)"
proof -
  have r: "rstrip CR (content @ replicate k CR) = content"
    using assms(3,4) by (rule rstrip_content)
  have "NL \<notin> set (content @ replicate k CR)"
    using assms(2) NL_not_CR by simp
  with assms(1)
  have "process_lines cfg now (st\<lparr>buffer := (content @ replicate k CR) @ NL # rest\<rparr>) =
        process_lines cfg now
          (handle_line cfg now (content @ replicate k CR) (st\<lparr>buffer := rest\<rparr>))"
    by (rule process_lines_line)
  with r assms(3) show ?thesis
    by (simp add: handle_line_def)
qed

theorem all_trailing_CR_stripped_witness:
  "mainpc (start cfg_plain) = InLoop \<and> NL \<notin> set (ascii ''ab'')
   \<and> ascii ''ab'' \<noteq> [] \<and> last (ascii ''ab'') \<noteq> CR
   \<and> rstrip CR (ascii ''ab'' @ replicate 2 CR) = ascii ''ab''
   \<and> process_lines cfg_plain clock0
        ((start cfg_plain)\<lparr>buffer := ascii ''ab'' @ replicate 2 CR @ NL # []\<rparr>) =
      process_lines cfg_plain clock0
        (if should_display cfg_plain (ascii ''ab'')
         then forward cfg_plain clock0 (ascii ''ab'') ((start cfg_plain)\<lparr>buffer := []\<rparr>)
         else (start cfg_plain)\<lparr>buffer := []\<rparr>)"
proof -
  have h: "mainpc (start cfg_plain) = InLoop" "NL \<notin> set (ascii ''ab'')"
    "ascii ''ab'' \<noteq> []" "last (ascii ''ab'') \<noteq> CR"
    by (simp_all add: start_def ascii_def NL_def CR_def)
  from h all_trailing_CR_stripped [OF h, of 2 cfg_plain clock0 "[]"]
  show ?thesis by blast
qed

text \<open>
  C7 as stated fails: the bytes of \<open>ab\<close> followed by 0D 0D 0A give the record \<open>ab\<close>,
  not a record that still ends in one carriage return.
\<close>

theorem single_CR_counterexample:
  "console (run cfg_plain clock0 [Chunk (bytes_of ''ab'' @ [0x0D, 0x0D, 0x0A])] (start cfg_plain))
     = [ascii ''ab'']
   \<and> console (run cfg_plain clock0 [Chunk (bytes_of ''ab'' @ [0x0D, 0x0D, 0x0A])] (start cfg_plain))
     \<noteq> [ascii ''ab'' @ [CR]]"
  by (simp add: scenario_eval)

text \<open>
  C8. What follows the last line feed stays in the buffer and is not emitted: the state
  after processing is the state after processing the text up to that line feed, with the
  rest as the buffer; and a chunk without a line feed only extends the buffer. The bytes
  of \<open>boot\r\nOK\r\nincomplete\<close> give the two records \<open>boot\<close> and \<open>OK\<close> and leave
  \<open>incomplete\<close> pending, which is emitted once a later chunk brings the line feed.
\<close>

theorem pending_not_emitted:
  "(mainpc st = InLoop \<and> NL \<notin> set tail \<longrightarrow>
      process_lines cfg now (st\<lparr>buffer := pre @ NL # tail\<rparr>) =
        (process_lines cfg now (st\<lparr>buffer := pre @ [NL]\<rparr>))\<lparr>buffer := tail\<rparr>)
   \<and> (mainpc st = InLoop \<and> NL \<notin> set (buffer st) \<and> NL \<notin> set (decoded data) \<longrightarrow>
      step cfg now st (Chunk data) = st\<lparr>buffer := buffer st @ decoded data\<rparr>)
   \<and> run cfg_plain clock0
        [Chunk (bytes_of ''boot'' @ [0x0D, 0x0A] @ bytes_of ''OK'' @ [0x0D, 0x0A]
                @ bytes_of ''incomplete'')] (start cfg_plain) =
      (start cfg_plain)\<lparr>console := [ascii ''boot'', ascii ''OK''],
                          buffer := ascii ''incomplete''\<rparr>
   \<and> run cfg_plain clock0
        [Chunk (bytes_of ''boot'' @ [0x0D, 0x0A] @ bytes_of ''OK'' @ [0x0D, 0x0A]
                @ bytes_of ''incomplete''), NoData, Chunk [0x0A]] (start cfg_plain) =
      (start cfg_plain)\<lparr>console := [ascii ''boot'', ascii ''OK'', ascii ''incomplete'']\<rparr>"
proof -
  have 1: "process_lines cfg now (st\<lparr>buffer := pre @ NL # tail\<rparr>) =
        (process_lines cfg now (st\<lparr>buffer := pre @ [NL]\<rparr>))\<lparr>buffer := tail\<rparr>"
    if "mainpc st = InLoop" "NL \<notin> set tail"
    using that by (rule process_lines_tail)
  have 2: "step cfg now st (Chunk data) = st\<lparr>buffer := buffer st @ decoded data\<rparr>"
    if "mainpc st = InLoop" "NL \<notin> set (buffer st)" "NL \<notin> set (decoded data)"
  proof (cases "data = []")
    case True
    with that show ?thesis by (simp add: step_Chunk decoded_Nil)
  next
    case False
    have "process_lines cfg now (st\<lparr>buffer := buffer st @ decoded data\<rparr>) =
        st\<lparr>buffer := buffer st @ decoded data\<rparr>"
      using that by (intro process_lines_done) simp
    with False that(1) show ?thesis by (simp add: step_Chunk)
  qed
  have 3: "run cfg_plain clock0
        [Chunk (bytes_of ''boot'' @ [0x0D, 0x0A] @ bytes_of ''OK'' @ [0x0D, 0x0A]
                @ bytes_of ''incomplete'')] (start cfg_plain) =
      (start cfg_plain)\<lparr>console := [ascii ''boot'', ascii ''OK''],
                          buffer := ascii ''incomplete''\<rparr>"
    by (simp add: scenario_eval)
  have 4: "run cfg_plain clock0
        [Chunk (bytes_of ''boot'' @ [0x0D, 0x0A] @ bytes_of ''OK'' @ [0x0D, 0x0A]
                @ bytes_of ''incomplete''), NoData, Chunk [0x0A]] (start cfg_plain) =
      (start cfg_plain)\<lparr>console := [ascii ''boot'', ascii ''OK'', ascii ''incomplete'']\<rparr>"
    by (simp add: scenario_eval)
  from 1 2 3 4 show ?thesis by blast
qed

theorem pending_not_emitted_witness:
  "mainpc (start cfg_plain) = InLoop \<and> NL \<notin> set (ascii ''inc'')
   \<and> process_lines cfg_plain clock0 ((start cfg_plain)\<lparr>buffer := ascii ''OK'' @ NL # ascii ''inc''\<rparr>) =
      (process_lines cfg_plain clock0 ((start cfg_plain)\<lparr>buffer := ascii ''OK'' @ [NL]\<rparr>))
        \<lparr>buffer := ascii ''inc''\<rparr>
   \<and> NL \<notin> set (buffer (start cfg_plain)) \<and> NL \<notin> set (decoded (bytes_of ''inc''))
   \<and> step cfg_plain clock0 (start cfg_plain) (Chunk (bytes_of ''inc'')) =
      (start cfg_plain)\<lparr>buffer := buffer (start cfg_plain) @ decoded (bytes_of ''inc'')\<rparr>"
proof -
  have h: "mainpc (start cfg_plain) = InLoop" "NL \<notin> set (ascii ''inc'')"
    "NL \<notin> set (buffer (start cfg_plain))" "NL \<notin> set (decoded (bytes_of ''inc''))"
    by (simp_all add: scenario_eval)
  from h pending_not_emitted [of "start cfg_plain" "ascii ''inc''" cfg_plain clock0 "ascii ''OK''"
      "bytes_of ''inc''"]
  show ?thesis by blast
qed

text \<open>
  C10. \<open>should_display\<close> passes every line when no pattern is configured; with a pattern
  it passes a line exactly when some part of the line (anywhere in it, and not
  necessarily the whole line) is matched by the pattern. For a pattern without
  metacharacters that is: the pattern occurs in the line.
\<close>

theorem filter_is_unanchored_search:
  "(filter_pattern cfg = None \<longrightarrow> should_display cfg line)
   \<and> (filter_pattern cfg = Some p \<longrightarrow>
        (should_display cfg line \<longleftrightarrow>
           (\<exists>before part after. line = before @ part @ after \<and> part \<in> lang p)))
   \<and> (filter_pattern cfg = Some (literal pat) \<longrightarrow>
        (should_display cfg line \<longleftrightarrow> (\<exists>before after. line = before @ pat @ after)))"
  by (auto simp: should_display_def search_lang literal_lang)

theorem filter_is_unanchored_search_witness:
  "filter_pattern cfg_plain = None \<and> should_display cfg_plain (ascii ''boot'')
   \<and> filter_pattern cfg_ERR = Some (literal (ascii ''ERR''))
   \<and> should_display cfg_ERR (ascii ''an ERR inside'')
   \<and> \<not> should_display cfg_ERR (ascii ''ER'')"
proof -
  have 1: "filter_pattern cfg_plain = None"
    by (simp add: cfg_plain_def)
  have 2: "filter_pattern cfg_ERR = Some (literal (ascii ''ERR''))"
    by (simp add: cfg_ERR_def)
  have 3: "ascii ''an ERR inside'' = ascii ''an '' @ ascii ''ERR'' @ ascii '' inside''"
    by (simp add: ascii_def)
  have 4: "\<not> (\<exists>before after. ascii ''ER'' = before @ ascii ''ERR'' @ after)"
  proof
    assume "\<exists>before after. ascii ''ER'' = before @ ascii ''ERR'' @ after"
    then obtain before after where "ascii ''ER'' = before @ ascii ''ERR'' @ after"
      by blast
    then have "length (ascii ''ER'') = length (before @ ascii ''ERR'' @ after)"
      by simp
    then show False
      by (simp add: ascii_def)
  qed
  from 1 filter_is_unanchored_search [of cfg_plain "ascii ''boot''"]
  have a: "should_display cfg_plain (ascii ''boot'')" by blast
  from 2 3 filter_is_unanchored_search [of cfg_ERR "ascii ''an ERR inside''" _ "ascii ''ERR''"]
  have b: "should_display cfg_ERR (ascii ''an ERR inside'')" by blast
  from 2 4 filter_is_unanchored_search [of cfg_ERR "ascii ''ER''" _ "ascii ''ERR''"]
  have c: "\<not> should_display cfg_ERR (ascii ''ER'')" by blast
  from 1 2 a b c show ?thesis by blast
qed

text \<open>
  C6 (as amended). For the text \<open>raw\<close> before a line feed, the assembled line is
  \<open>rstrip CR raw\<close>. If it is not empty and the filter is absent or matches it, the
  formatted line is printed and, when a log file is configured, the same formatted line
  is queued for the log; otherwise (an empty line, or a line the filter rejects) neither
  happens, so the filter gates both sinks alike. With the filter \<open>ERR\<close> the lines
  \<open>boot\<close>, \<open>ERR: fail\<close>, \<open>OK\<close> forward only \<open>ERR: fail\<close>, to the console and to
  the log queue.
\<close>

theorem filter_gates_both_sinks:
  "(mainpc st = InLoop \<and> NL \<notin> set raw \<and> line = rstrip CR raw \<longrightarrow>
      process_lines cfg now (st\<lparr>buffer := raw @ [NL]\<rparr>) =
        (if line \<noteq> [] \<and> should_display cfg line
         then st\<lparr>buffer := [],
                 console := console st @ [format_line (now (ticks st)) line (show_timestamps cfg)],
                 ticks := (if show_timestamps cfg then Suc (ticks st) else ticks st),
                 log_queue :=
                   (if log_enabled cfg
                    then log_queue st
                           @ [format_line (now (ticks st)) line (show_timestamps cfg) @ [NL]]
                    else log_queue st)\<rparr>
         else st\<lparr>buffer := []\<rparr>))
   \<and> run cfg_ERR clock0
        [Chunk (bytes_of ''boot'' @ [0x0A] @ bytes_of ''ERR: fail'' @ [0x0A]
                @ bytes_of ''OK'' @ [0x0A])] (start cfg_ERR) =
      (start cfg_ERR)\<lparr>console := [ascii ''ERR: fail''],
                        log_queue := [ascii ''ERR: fail'' @ [NL]]\<rparr>"
proof -
  have 1: "process_lines cfg now (st\<lparr>buffer := raw @ [NL]\<rparr>) =
        (if line \<noteq> [] \<and> should_display cfg line
         then st\<lparr>buffer := [],
                 console := console st @ [format_line (now (ticks st)) line (show_timestamps cfg)],
                 ticks := (if show_timestamps cfg then Suc (ticks st) else ticks st),
                 log_queue :=
                   (if log_enabled cfg
                    then log_queue st
                           @ [format_line (now (ticks st)) line (show_timestamps cfg) @ [NL]]
                    else log_queue st)\<rparr>
         else st\<lparr>buffer := []\<rparr>)"
    if "mainpc st = InLoop" "NL \<notin> set raw" "line = rstrip CR raw"
  proof -
    have "process_lines cfg now (st\<lparr>buffer := raw @ NL # []\<rparr>) =
          process_lines cfg now (handle_line cfg now raw (st\<lparr>buffer := []\<rparr>))"
      using that(1,2) by (rule process_lines_line)
    also have "\<dots> = handle_line cfg now raw (st\<lparr>buffer := []\<rparr>)"
      by (rule process_lines_done) simp
    finally show ?thesis
      using that(3) by (simp add: handle_line_def forward_eq)
  qed
  have 2: "run cfg_ERR clock0
        [Chunk (bytes_of ''boot'' @ [0x0A] @ bytes_of ''ERR: fail'' @ [0x0A]
                @ bytes_of ''OK'' @ [0x0A])] (start cfg_ERR) =
      (start cfg_ERR)\<lparr>console := [ascii ''ERR: fail''],
                        log_queue := [ascii ''ERR: fail'' @ [NL]]\<rparr>"
    by (simp add: scenario_eval)
  from 1 2 show ?thesis by blast
qed

theorem filter_gates_both_sinks_witness:
  "mainpc (start cfg_ERR) = InLoop \<and> NL \<notin> set (ascii ''ERR: fail'' @ [CR])
   \<and> ascii ''ERR: fail'' = rstrip CR (ascii ''ERR: fail'' @ [CR])
   \<and> should_display cfg_ERR (ascii ''ERR: fail'')
   \<and> process_lines cfg_ERR clock0 ((start cfg_ERR)\<lparr>buffer := (ascii ''ERR: fail'' @ [CR]) @ [NL]\<rparr>) =
      (start cfg_ERR)\<lparr>console := [ascii ''ERR: fail''],
                        log_queue := [ascii ''ERR: fail'' @ [NL]]\<rparr>"
proof -
  have h: "mainpc (start cfg_ERR) = InLoop \<and> NL \<notin> set (ascii ''ERR: fail'' @ [CR])
      \<and> ascii ''ERR: fail'' = rstrip CR (ascii ''ERR: fail'' @ [CR])"
    by (simp add: scenario_eval)
  have d: "should_display cfg_ERR (ascii ''ERR: fail'')"
    by (simp add: scenario_eval)
  have ne: "ascii ''ERR: fail'' \<noteq> []"
    by (simp add: ascii_def)
  from h filter_gates_both_sinks [of "start cfg_ERR" "ascii ''ERR: fail'' @ [CR]"
      "ascii ''ERR: fail''" cfg_ERR clock0]
  have "process_lines cfg_ERR clock0 ((start cfg_ERR)\<lparr>buffer := (ascii ''ERR: fail'' @ [CR]) @ [NL]\<rparr>) =
      (if ascii ''ERR: fail'' \<noteq> [] \<and> should_display cfg_ERR (ascii ''ERR: fail'')
       then (start cfg_ERR)\<lparr>buffer := [],
         console := console (start cfg_ERR)
            @ [format_line (clock0 (ticks (start cfg_ERR))) (ascii ''ERR: fail'') (show_timestamps cfg_ERR)],
         ticks := (if show_timestamps cfg_ERR then Suc (ticks (start cfg_ERR)) else ticks (start cfg_ERR)),
         log_queue :=
           (if log_enabled cfg_ERR
            then log_queue (start cfg_ERR)
                   @ [format_line (clock0 (ticks (start cfg_ERR))) (ascii ''ERR: fail'') (show_timestamps cfg_ERR) @ [NL]]
            else log_queue (start cfg_ERR))\<rparr>
       else (start cfg_ERR)\<lparr>buffer := []\<rparr>)"
    by blast
  with ne d
  have "process_lines cfg_ERR clock0 ((start cfg_ERR)\<lparr>buffer := (ascii ''ERR: fail'' @ [CR]) @ [NL]\<rparr>) =
      (start cfg_ERR)\<lparr>console := [ascii ''ERR: fail''],
                        log_queue := [ascii ''ERR: fail'' @ [NL]]\<rparr>"
    by (simp add: start_def cfg_ERR_def format_line_def log_enabled_def)
  with h d show ?thesis by blast
qed

text \<open>
  C6 as stated fails for the empty line: with no filter configured \<open>should_display\<close>
  holds for it, yet a line feed alone prints nothing and queues nothing.
\<close>

theorem empty_line_filter_counterexample:
  "filter_pattern cfg_logging = None \<and> should_display cfg_logging []
   \<and> console (process_lines cfg_logging clock0 ((start cfg_logging)\<lparr>buffer := [] @ [NL]\<rparr>)) = []
   \<and> log_queue (process_lines cfg_logging clock0 ((start cfg_logging)\<lparr>buffer := [] @ [NL]\<rparr>)) = []"
  by (simp add: scenario_eval)

text \<open>
  C2. The code exits with status 0 however the session ends. \<open>monitor\<close> returns False
  when the connection cannot be opened, \<open>main\<close> drops the result and falls off its end,
  so the status is 0 there too; it is 0 as well after Ctrl+C or an exception from the
  port, both caught inside \<open>monitor\<close>.
\<close>

theorem exit_status_is_zero:
  "monitor cfg now False evs = Some False
   \<and> process_exit command cfg now False evs = Some 0
   \<and> (KeyboardInterrupt \<in> set evs \<or> IOFailure e \<in> set evs \<longrightarrow>
        process_exit command cfg now True evs = Some 0)
   \<and> (process_exit command cfg now connected evs = None
        \<or> process_exit command cfg now connected evs = Some 0)"
proof -
  have 1: "monitor cfg now False evs = Some False"
    by (simp add: monitor_def)
  have 2: "process_exit command cfg now False evs = Some 0"
    by (simp add: process_exit_def main_def 1 exit_status_def)
  have 3: "process_exit command cfg now True evs = Some 0"
    if "KeyboardInterrupt \<in> set evs \<or> IOFailure e \<in> set evs"
  proof -
    have "mainpc (run cfg now evs (start cfg)) = Finished"
      using that by (rule run_stop_finishes) (simp add: start_fields)
    then show ?thesis
      by (simp add: process_exit_def main_def monitor_def exit_status_def)
  qed
  have 4: "process_exit command cfg now connected evs = None
        \<or> process_exit command cfg now connected evs = Some 0"
    by (simp add: process_exit_def main_def monitor_def exit_status_def)
  from 1 2 3 4 show ?thesis by blast
qed

theorem exit_status_is_zero_witness:
  "KeyboardInterrupt \<in> set [Chunk (bytes_of ''boot'' @ [0x0A]), NoData, KeyboardInterrupt]
   \<and> process_exit None cfg_plain clock0 True
        [Chunk (bytes_of ''boot'' @ [0x0A]), NoData, KeyboardInterrupt] = Some 0
   \<and> process_exit None cfg_plain clock0 False [] = Some 0"
proof -
  have h: "KeyboardInterrupt \<in> set [Chunk (bytes_of ''boot'' @ [0x0A]), NoData, KeyboardInterrupt]"
    by simp
  from h exit_status_is_zero [of cfg_plain clock0
      "[Chunk (bytes_of ''boot'' @ [0x0A]), NoData, KeyboardInterrupt]" None]
    exit_status_is_zero [of cfg_plain clock0 "[]" None]
  show ?thesis by blast
qed

text \<open>
  C3 (as amended). The stop (Ctrl+C or an exception, then the \<open>finally\<close> block) clears
  \<open>running\<close> and leaves the queue as it is. From then on the writer thread does not
  drain the queue: it writes at most the one entry whose \<open>get\<close> was already under way,
  and nothing at all when it is at the head of its loop, where it sees the cleared flag
  and leaves. What was queued and not written stays in the queue, in order, however long
  the process lingers.
\<close>

theorem shutdown_does_not_drain:
  "(mainpc st = InLoop \<and> (ev = KeyboardInterrupt \<or> ev = IOFailure e) \<longrightarrow>
      mainpc (step cfg now st ev) = Finished \<and> \<not> running (step cfg now st ev)
      \<and> log_queue (step cfg now st ev) = log_queue st
      \<and> log_written (step cfg now st ev) = log_written st)
   \<and> (mainpc st = Finished \<and> \<not> running st \<longrightarrow>
      log_written (run cfg now evs st) @ log_queue (run cfg now evs st) =
        log_written st @ log_queue st
      \<and> length (log_written (run cfg now evs st)) \<le> Suc (length (log_written st)))
   \<and> (mainpc st = Finished \<and> \<not> running st \<and> writer st \<noteq> InGet \<longrightarrow>
      log_written (run cfg now evs st) = log_written st
      \<and> log_queue (run cfg now evs st) = log_queue st)"
proof -
  have 1: "mainpc (step cfg now st ev) = Finished \<and> \<not> running (step cfg now st ev)
      \<and> log_queue (step cfg now st ev) = log_queue st
      \<and> log_written (step cfg now st ev) = log_written st"
    if "mainpc st = InLoop" "ev = KeyboardInterrupt \<or> ev = IOFailure e"
    using that by (auto simp: step_def main_step_def finally_block_fields print_fields)
  from 1 stopped_run [of st cfg now evs] stopped_run_idle [of st cfg now evs]
  show ?thesis by blast
qed

theorem shutdown_does_not_drain_witness:
  "mainpc (run cfg_logging clock0 [Chunk (bytes_of ''a'' @ [0x0A]), KeyboardInterrupt]
             (start cfg_logging)) = Finished
   \<and> \<not> running (run cfg_logging clock0 [Chunk (bytes_of ''a'' @ [0x0A]), KeyboardInterrupt]
             (start cfg_logging))
   \<and> writer (run cfg_logging clock0 [Chunk (bytes_of ''a'' @ [0x0A]), KeyboardInterrupt]
             (start cfg_logging)) \<noteq> InGet
   \<and> log_queue (run cfg_logging clock0 [WriterStep, WriterStep, WriterStep]
        (run cfg_logging clock0 [Chunk (bytes_of ''a'' @ [0x0A]), KeyboardInterrupt]
             (start cfg_logging))) = [ascii ''a'' @ [NL]]
   \<and> log_written (run cfg_logging clock0 [WriterStep, WriterStep, WriterStep]
        (run cfg_logging clock0 [Chunk (bytes_of ''a'' @ [0x0A]), KeyboardInterrupt]
             (start cfg_logging))) = []"
proof -
  define st where "st = run cfg_logging clock0 [Chunk (bytes_of ''a'' @ [0x0A]), KeyboardInterrupt]
             (start cfg_logging)"
  have h: "mainpc st = Finished" "\<not> running st" "writer st \<noteq> InGet"
    "log_queue st = [ascii ''a'' @ [NL]]" "log_written st = []"
    unfolding st_def
    by (simp_all add: scenario_eval finally_block_def disconnect_def print_def)
  from h shutdown_does_not_drain [of st _ _ cfg_logging clock0 "[WriterStep, WriterStep, WriterStep]"]
  have "log_written (run cfg_logging clock0 [WriterStep, WriterStep, WriterStep] st) = log_written st
      \<and> log_queue (run cfg_logging clock0 [WriterStep, WriterStep, WriterStep] st) = log_queue st"
    by blast
  with h show ?thesis
    unfolding st_def by simp
qed

text \<open>
  C3 as stated fails: a record is queued, the operator presses Ctrl+C, and the writer
  thread, at the head of its loop, sees the cleared flag and leaves (closing the file):
  the record is still in the queue and the file has not received it.
\<close>

theorem drain_counterexample:
  "mainpc (run cfg_logging clock0
             [Chunk (bytes_of ''a'' @ [0x0A]), KeyboardInterrupt, WriterStep, WriterStep]
             (start cfg_logging)) = Finished
   \<and> writer (run cfg_logging clock0
             [Chunk (bytes_of ''a'' @ [0x0A]), KeyboardInterrupt, WriterStep, WriterStep]
             (start cfg_logging)) = WriterExited
   \<and> log_written (run cfg_logging clock0
             [Chunk (bytes_of ''a'' @ [0x0A]), KeyboardInterrupt, WriterStep, WriterStep]
             (start cfg_logging)) = []
   \<and> log_queue (run cfg_logging clock0
             [Chunk (bytes_of ''a'' @ [0x0A]), KeyboardInterrupt, WriterStep, WriterStep]
             (start cfg_logging)) = [ascii ''a'' @ [NL]]"
  by (simp add: scenario_eval finally_block_def disconnect_def print_def writer_step_def)

text \<open>
  C4 (as amended). The queue is created without a maximum size, so it is never full:
  the read loop never blocks on \<open>put\<close>, every \<open>put\<close> appends its entry (nothing is
  dropped), and the length of the queue exceeds any bound when the writer thread does
  not keep up: \<open>n\<close> lines read without a step of the writer leave \<open>n\<close> entries queued.
\<close>

theorem log_queue_unbounded:
  "\<not> queue_full log_queue_maxsize q
   \<and> mainpc (run cfg now evs (start cfg)) \<noteq> BlockedOnPut
   \<and> (log_enabled cfg \<longrightarrow>
        log_queue (forward cfg now line st) =
          log_queue st @ [format_line (now (ticks st)) line (show_timestamps cfg) @ [NL]])
   \<and> length (log_queue (run cfg_logging clock0 (replicate n (Chunk (bytes_of ''a'' @ [0x0A])))
                 (start cfg_logging))) = n"
proof -
  have 1: "\<not> queue_full log_queue_maxsize q"
    by (simp add: queue_full_def log_queue_maxsize_def)
  have 2: "mainpc (run cfg now evs (start cfg)) \<noteq> BlockedOnPut"
    by (rule run_never_blocked) (simp add: start_fields)
  have 3: "log_queue (forward cfg now line st) =
          log_queue st @ [format_line (now (ticks st)) line (show_timestamps cfg) @ [NL]]"
    if "log_enabled cfg"
    using that by (simp add: forward_eq)
  have 4: "length (log_queue (run cfg_logging clock0 (replicate n (Chunk (bytes_of ''a'' @ [0x0A])))
                 (start cfg_logging))) = n"
    by (simp add: feed_lines_logging)
  from 1 2 3 4 show ?thesis by blast
qed

theorem log_queue_unbounded_witness:
  "log_enabled cfg_logging
   \<and> log_queue (forward cfg_logging clock0 (ascii ''OK'') (start cfg_logging)) =
       [ascii ''OK'' @ [NL]]
   \<and> length (log_queue (run cfg_logging clock0 (replicate 3 (Chunk (bytes_of ''a'' @ [0x0A])))
                 (start cfg_logging))) = 3"
proof -
  have h: "log_enabled cfg_logging"
    by (simp add: cfg_logging_def log_enabled_def)
  from h log_queue_unbounded [of "[]" cfg_logging clock0 "[]" "ascii ''OK''" "start cfg_logging" 3]
  have "log_queue (forward cfg_logging clock0 (ascii ''OK'') (start cfg_logging)) =
          log_queue (start cfg_logging)
            @ [format_line (clock0 (ticks (start cfg_logging))) (ascii ''OK'')
                 (show_timestamps cfg_logging) @ [NL]]"
    and l: "length (log_queue (run cfg_logging clock0 (replicate 3 (Chunk (bytes_of ''a'' @ [0x0A])))
                 (start cfg_logging))) = 3"
    by blast+
  then have "log_queue (forward cfg_logging clock0 (ascii ''OK'') (start cfg_logging)) =
       [ascii ''OK'' @ [NL]]"
    by (simp add: start_def cfg_logging_def format_line_def)
  with h l show ?thesis by blast
qed

text \<open>
  C4 as stated fails: no capacity bounds the length of the queue over the runs of the
  session.
\<close>

theorem bounded_queue_counterexample:
  "\<not> (\<exists>cap. \<forall>evs. length (log_queue (run cfg_logging clock0 evs (start cfg_logging))) \<le> cap)"
proof
  assume "\<exists>cap. \<forall>evs. length (log_queue (run cfg_logging clock0 evs (start cfg_logging))) \<le> cap"
  then obtain cap where
    "\<forall>evs. length (log_queue (run cfg_logging clock0 evs (start cfg_logging))) \<le> cap"
    by blast
  then have "length (log_queue (run cfg_logging clock0
      (replicate (Suc cap) (Chunk (bytes_of ''a'' @ [0x0A]))) (start cfg_logging))) \<le> cap"
    by blast
  then show False
    by (simp only: feed_lines_logging) simp
qed

end
